theory Spec2Isabelle
  imports Main "HOL-Library.Sublist" "HOL-Library.Char_ord"
begin

section \<open>Runes, errors, sinks and the View\<close>

text \<open>
  The source is read rune by rune through a \<^verbatim>\<open>bufio.Reader\<close>.  The model works on the
  decoded rune sequence; a rune is a code point below 256, and \<open>RuneLen\<close> is the width of
  its UTF-8 encoding, which is what \<^verbatim>\<open>ReadRune\<close> reports as the size.
\<close>

type_synonym rune = char

definition RuneLen :: "rune \<Rightarrow> nat" where
  "RuneLen r = (if (of_char r :: nat) < 128 then 1 else 2)"

text \<open>
  Errors are values.  \<open>Errorf fmt arg\<close> is \<^verbatim>\<open>fmt.Errorf(fmt, arg)\<close>; \<open>SyntaxError n e\<close> is
  \<^verbatim>\<open>&SyntaxError{Offset: n, msg: e.Error()}\<close>, kept as the error whose text it carries.
\<close>

datatype error =
    EOF
  | ErrInvalidUnreadRune
  | Errorf string string
  | SyntaxError nat error

text \<open>
  The three \<^verbatim>\<open>runeWriter\<close>s of the program: the buffered writer in front of the pipe,
  the \<^verbatim>\<open>bytes.Buffer\<close> that collects an object key, and \<^verbatim>\<open>discard\<close>.
\<close>

datatype runeWriter = PipeWriter | KeyBuffer | Discard

record View =
  src :: "rune list"
  lastRune :: "rune option"
  filters :: "string list"
  curr :: string
  pw :: "rune list"
  keyBuf :: "rune list"

text \<open>
  \<open>src\<close> holds the runes not yet read and \<open>lastRune\<close> the rune that \<^verbatim>\<open>UnreadRune\<close> may
  push back (present only right after a successful \<^verbatim>\<open>ReadRune\<close>); \<open>pw\<close> is everything
  written towards the pipe so far.
\<close>

definition NewView :: "rune list \<Rightarrow> View" where
  "NewView r = \<lparr>src = r, lastRune = None, filters = [], curr = [], pw = [], keyBuf = []\<rparr>"

definition AddFilter :: "string \<Rightarrow> View \<Rightarrow> View" where
  "AddFilter f v = v\<lparr>filters := filters v @ [f]\<rparr>"

definition ReadRune :: "View \<Rightarrow> (rune \<times> nat \<times> error option) \<times> View" where
  "ReadRune v =
     (case src v of
        [] \<Rightarrow> ((CHR 0x00, 0, Some EOF), v\<lparr>lastRune := None\<rparr>)
      | c # cs \<Rightarrow> ((c, RuneLen c, None), v\<lparr>src := cs, lastRune := Some c\<rparr>))"

definition UnreadRune :: "View \<Rightarrow> error option \<times> View" where
  "UnreadRune v =
     (case lastRune v of
        None \<Rightarrow> (Some ErrInvalidUnreadRune, v)
      | Some c \<Rightarrow> (None, v\<lparr>src := c # src v, lastRune := None\<rparr>))"

definition WriteRune :: "runeWriter \<Rightarrow> rune \<Rightarrow> View \<Rightarrow> View" where
  "WriteRune dest r v =
     (case dest of
        PipeWriter \<Rightarrow> v\<lparr>pw := pw v @ [r]\<rparr>
      | KeyBuffer \<Rightarrow> v\<lparr>keyBuf := keyBuf v @ [r]\<rparr>
      | Discard \<Rightarrow> v)"

section \<open>The path matcher\<close>

fun skip :: "string list \<Rightarrow> string \<Rightarrow> bool" where
  "skip [] c = True"
| "skip (f # fs) c =
     (if f = c then False
      else let (longer, shorter) =
                 (if length f < length c then (c, f) else (f, c))
           in if \<not> prefix shorter longer then skip fs c
              else if longer ! length shorter = CHR ''.'' then False
              else skip fs c)"

section \<open>The scanner\<close>

definition isSpace :: "rune \<Rightarrow> bool" where
  "isSpace c = (c = CHR '' '' \<or> c = CHR 0x09 \<or> c = CHR 0x0A \<or> c = CHR 0x0D)"

lemma ReadRune_shorter:
  "ReadRune v = ((c, s, None), v') \<Longrightarrow> length (src v') < length (src v)"
  by (auto simp: ReadRune_def split: list.splits)

function peek_loop :: "nat \<Rightarrow> View \<Rightarrow> (rune \<times> nat \<times> error option) \<times> View" where
  "peek_loop n v =
     (case ReadRune v of
        ((c, s, Some err), v') \<Rightarrow> ((c, n, Some err), v')
      | ((c, s, None), v') \<Rightarrow>
          if isSpace c then peek_loop (n + s) v'
          else (case UnreadRune v' of (err, v'') \<Rightarrow> ((c, n + s - s, err), v'')))"
  by pat_completeness auto
termination
  by (relation "measure (\<lambda>(n, v). length (src v))") (auto dest: ReadRune_shorter [OF sym])

definition peek :: "View \<Rightarrow> (rune \<times> nat \<times> error option) \<times> View" where
  "peek v = peek_loop 0 v"

function next_loop :: "nat \<Rightarrow> View \<Rightarrow> (rune \<times> nat \<times> error option) \<times> View" where
  "next_loop n v =
     (case ReadRune v of
        ((c, s, Some err), v') \<Rightarrow> ((c, n, Some err), v')
      | ((c, s, None), v') \<Rightarrow>
          if isSpace c then next_loop (n + s) v' else ((c, n + s, None), v'))"
  by pat_completeness auto
termination
  by (relation "measure (\<lambda>(n, v). length (src v))") (auto dest: ReadRune_shorter [OF sym])

definition "next" :: "View \<Rightarrow> (rune \<times> nat \<times> error option) \<times> View" where
  "next v = next_loop 0 v"

section \<open>Strings\<close>

definition apos :: string where
  "apos = [CHR 0x27]"

definition isHex :: "rune \<Rightarrow> bool" where
  "isHex r = ((CHR ''0'' \<le> r \<and> r \<le> CHR ''9'') \<or> (CHR ''a'' \<le> r \<and> r \<le> CHR ''f'')
              \<or> (CHR ''A'' \<le> r \<and> r \<le> CHR ''F''))"

definition isEscape :: "rune \<Rightarrow> bool" where
  "isEscape r = (r = CHR 0x22 \<or> r = CHR 0x5C \<or> r = CHR ''/'' \<or> r = CHR ''b'' \<or> r = CHR ''f''
                 \<or> r = CHR ''n'' \<or> r = CHR ''r'' \<or> r = CHR ''t'')"

text \<open>The loop \<^verbatim>\<open>for i := 0; i < 4; i++\<close> over the hex digits of a \<^verbatim>\<open>\u\<close> escape.\<close>

function readHex :: "nat \<Rightarrow> runeWriter \<Rightarrow> nat \<Rightarrow> View \<Rightarrow> (nat \<times> error option) \<times> View" where
  "readHex i dest n v =
     (if i < 4 then
        (case ReadRune v of
           ((r, s, Some err), v') \<Rightarrow> ((n, Some err), v')
         | ((r, s, None), v') \<Rightarrow>
             if isHex r then readHex (i + 1) dest (n + s) (WriteRune dest r v')
             else ((n + s,
                    Some (Errorf (''illegal character after hex signifier: '%c'' @ apos) [r])), v'))
      else ((n, None), v))"
  by pat_completeness auto
termination
  by (relation "measure (\<lambda>(i, dest, n, v). 4 - i)") auto

lemma src_WriteRune [simp]: "src (WriteRune dest r v) = src v"
  by (simp add: WriteRune_def split: runeWriter.splits)

lemma ReadRune_not_longer: "ReadRune v = (res, v') \<Longrightarrow> length (src v') \<le> length (src v)"
  by (auto simp: ReadRune_def split: list.splits)

lemma readHex_not_longer: "readHex i dest n v = (res, v') \<Longrightarrow> length (src v') \<le> length (src v)"
proof (induction i dest n v arbitrary: res v' rule: readHex.induct)
  case (1 i dest n v)
  show ?case
  proof (cases "i < 4")
    case False
    with "1.prems" show ?thesis by simp
  next
    case True
    obtain r s e v1 where rr: "ReadRune v = ((r, s, e), v1)"
      by (metis prod_cases3 surj_pair)
    have le1: "length (src v1) \<le> length (src v)"
      using rr by (rule ReadRune_not_longer)
    show ?thesis
    proof (cases "e = None \<and> isHex r")
      case False
      with "1.prems" True rr le1 show ?thesis
        by (auto split: option.splits if_splits)
    next
      case True
      then have e: "e = None" and h: "isHex r" by simp_all
      from "1.prems" \<open>i < 4\<close> rr e h
      have "readHex (i + 1) dest (n + s) (WriteRune dest r v1) = (res, v')" by simp
      from "1.IH" [OF \<open>i < 4\<close> rr [symmetric] refl refl e h this] le1
      show ?thesis by simp
    qed
  qed
qed

function readString_loop :: "runeWriter \<Rightarrow> nat \<Rightarrow> View \<Rightarrow> (nat \<times> error option) \<times> View" where
  "readString_loop dest n v =
     (case ReadRune v of
        ((r, s, Some err), v1) \<Rightarrow> ((n, Some err), v1)
      | ((r, s, None), v1) \<Rightarrow>
          if r = CHR 0x22 then ((n + s, None), WriteRune dest r v1)
          else if r = CHR 0x5C then
            (case ReadRune (WriteRune dest r v1) of
               ((r2, s2, Some err), v2) \<Rightarrow> ((n + s, Some err), v2)
             | ((r2, s2, None), v2) \<Rightarrow>
                 if isEscape r2 then readString_loop dest (n + s + s2) (WriteRune dest r2 v2)
                 else if r2 = CHR ''u'' then
                   (case readHex 0 dest (n + s + s2) (WriteRune dest r2 v2) of
                      ((n', Some err), v3) \<Rightarrow> ((n', Some err), v3)
                    | ((n', None), v3) \<Rightarrow> readString_loop dest n' v3)
                 else ((n + s + s2,
                        Some (Errorf (''unexpected error after '/': '%c'' @ apos) [r2])), v2))
          else readString_loop dest (n + s) (WriteRune dest r v1))"
  by pat_completeness auto
termination
proof (relation "measure (\<lambda>(dest, n, v). length (src v))", goal_cases)
  case 1
  show ?case by simp
next
  case (2 dest n v x1 v1 r x2 s e x1a v2 r2 y s2 e2)
  then show ?case
    using ReadRune_shorter [of v r s v1] ReadRune_shorter [of "WriteRune dest r v1" r2 s2 v2]
    by simp
next
  case (3 dest n v x1 v1 r x2 s e x1a v2 r2 y s2 e2 x' v3 n' e3)
  then show ?case
    using ReadRune_shorter [of v r s v1] ReadRune_shorter [of "WriteRune dest r v1" r2 s2 v2]
      readHex_not_longer [of 0 dest "n + s + s2" "WriteRune dest r2 v2" "(n', None)" v3]
    by simp
next
  case (4 dest n v x1 v1 r x2 s e)
  then show ?case
    using ReadRune_shorter [of v r s v1] by simp
qed

definition readString :: "runeWriter \<Rightarrow> View \<Rightarrow> (nat \<times> error option) \<times> View" where
  "readString dest v =
     (case next v of
        ((r, n, Some err), v1) \<Rightarrow> ((0, Some err), v1)
      | ((r, n, None), v1) \<Rightarrow>
          if r \<noteq> CHR 0x22 then ((n, Some (Errorf (''expected '\"' got '%c'' @ apos) [r])), v1)
          else readString_loop dest n (WriteRune dest r v1))"

section \<open>Numbers\<close>

definition isDigit :: "rune \<Rightarrow> bool" where
  "isDigit r = (CHR ''0'' \<le> r \<and> r \<le> CHR ''9'')"

text \<open>
  The closure \<^verbatim>\<open>readDigits\<close> assigns the variables \<^verbatim>\<open>r\<close>, \<^verbatim>\<open>nn\<close>, \<^verbatim>\<open>n\<close> and \<^verbatim>\<open>err\<close> of
  \<^verbatim>\<open>readNumber\<close>; the model returns all four.
\<close>

function readDigits ::
  "runeWriter \<Rightarrow> nat \<Rightarrow> View \<Rightarrow> (rune \<times> nat \<times> nat \<times> error option) \<times> View" where
  "readDigits dest n v =
     (case ReadRune v of
        ((r, nn, Some err), v') \<Rightarrow> ((r, nn, n, Some err), v')
      | ((r, nn, None), v') \<Rightarrow>
          if isDigit r then readDigits dest (n + nn) (WriteRune dest r v')
          else ((r, nn, n, None), v'))"
  by pat_completeness auto
termination
  by (relation "measure (\<lambda>(dest, n, v). length (src v))")
     (auto dest: ReadRune_shorter [OF sym])

text \<open>The exponent, the fraction and the integer part, in the order the code runs them.\<close>

definition readNumber_exp ::
  "runeWriter \<Rightarrow> rune \<Rightarrow> nat \<Rightarrow> nat \<Rightarrow> View \<Rightarrow> (nat \<times> error option) \<times> View" where
  "readNumber_exp dest r nn n v =
     (if r = CHR ''e'' \<or> r = CHR ''E'' then
        (case ReadRune (WriteRune dest r v) of
           ((r1, nn1, Some err), v1) \<Rightarrow> ((n + nn, Some err), v1)
         | ((r1, nn1, None), v1) \<Rightarrow>
             if r1 = CHR ''+'' \<or> r1 = CHR ''-'' then
               (case ReadRune (WriteRune dest r1 v1) of
                  ((r2, nn2, Some err), v2) \<Rightarrow> ((n + nn + nn1, Some err), v2)
                | ((r2, nn2, None), v2) \<Rightarrow>
                    (case readDigits dest (n + nn + nn1) v2 of
                       ((r3, nn3, n3, err), v3) \<Rightarrow> ((n3, err), v3)))
             else
               (case readDigits dest (n + nn) v1 of
                  ((r3, nn3, n3, err), v3) \<Rightarrow> ((n3, err), v3)))
      else ((n, None), v))"

definition readNumber_frac ::
  "runeWriter \<Rightarrow> rune \<Rightarrow> nat \<Rightarrow> nat \<Rightarrow> View \<Rightarrow> (nat \<times> error option) \<times> View" where
  "readNumber_frac dest r nn n v =
     (if r = CHR ''.'' then
        (case readDigits dest (n + nn) (WriteRune dest r v) of
           ((r1, nn1, n1, Some err), v1) \<Rightarrow> ((n1, Some err), v1)
         | ((r1, nn1, n1, None), v1) \<Rightarrow> readNumber_exp dest r1 nn1 n1 v1)
      else readNumber_exp dest r nn n v)"

definition readNumber_int ::
  "runeWriter \<Rightarrow> rune \<Rightarrow> nat \<Rightarrow> nat \<Rightarrow> View \<Rightarrow> (nat \<times> error option) \<times> View" where
  "readNumber_int dest r nn n v =
     (if r = CHR ''0'' then
        (case ReadRune (WriteRune dest r v) of
           ((r1, nn1, Some err), v1) \<Rightarrow> ((n + nn, Some err), v1)
         | ((r1, nn1, None), v1) \<Rightarrow> readNumber_frac dest r1 nn1 (n + nn) v1)
      else if CHR ''1'' \<le> r \<and> r \<le> CHR ''9'' then
        (case readDigits dest (n + nn) (WriteRune dest r v) of
           ((r1, nn1, n1, Some err), v1) \<Rightarrow> ((n1, Some err), v1)
         | ((r1, nn1, n1, None), v1) \<Rightarrow> readNumber_frac dest r1 nn1 n1 v1)
      else readNumber_frac dest r nn n v)"

text \<open>
  \<^verbatim>\<open>readNumber\<close>: the first \<^verbatim>\<open>next\<close> returns before the deferred function is
  registered; after it, every return runs
  \<^verbatim>\<open>if err != nil { err = src.UnreadRune() }\<close>.
\<close>

definition readNumber :: "runeWriter \<Rightarrow> View \<Rightarrow> (nat \<times> error option) \<times> View" where
  "readNumber dest v =
     (case next v of
        ((r, nn, Some err), v1) \<Rightarrow> ((nn, Some err), v1)
      | ((r, nn, None), v1) \<Rightarrow>
          (case (if r = CHR ''-'' then
                   (case ReadRune (WriteRune dest r v1) of
                      ((r1, nn1, Some err), v2) \<Rightarrow> ((nn, Some err), v2)
                    | ((r1, nn1, None), v2) \<Rightarrow> readNumber_int dest r1 nn1 nn v2)
                 else readNumber_int dest r nn 0 v1) of
             ((n, None), v3) \<Rightarrow> ((n, None), v3)
           | ((n, Some err), v3) \<Rightarrow>
               (case UnreadRune v3 of (err', v4) \<Rightarrow> ((n, err'), v4))))"

section \<open>Values, objects and arrays\<close>

definition nextSlice :: "rune \<Rightarrow> rune list" where
  "nextSlice r =
     (if r = CHR ''t'' then ''true''
      else if r = CHR ''f'' then ''false''
      else if r = CHR ''n'' then ''null''
      else [])"

text \<open>The loop of \<^verbatim>\<open>readValue\<close> over the runes of the expected literal \<open>lit\<close>.\<close>

fun readLiteral ::
  "runeWriter \<Rightarrow> rune list \<Rightarrow> rune list \<Rightarrow> nat \<Rightarrow> View \<Rightarrow> (nat \<times> error option) \<times> View" where
  "readLiteral dest lit [] n v = ((n, None), v)"
| "readLiteral dest lit (c # cs) n v =
     (case ReadRune v of
        ((rr, nn, Some err), v') \<Rightarrow> ((n, Some err), v')
      | ((rr, nn, None), v') \<Rightarrow>
          if c \<noteq> rr then ((n + nn, Some (Errorf (''expected '%s'' @ apos) lit)), v')
          else readLiteral dest lit cs (n + nn) (WriteRune dest rr v'))"

text \<open>
  \<^verbatim>\<open>readValue\<close>, \<^verbatim>\<open>readObject\<close> and \<^verbatim>\<open>readArray\<close> call each other.  Each body is written
  first, with the functions it calls as parameters; the recursion is tied afterwards.
\<close>

type_synonym result = "(nat \<times> error option) \<times> View"

definition readValue_body ::
  "(runeWriter \<Rightarrow> View \<Rightarrow> result option) \<Rightarrow> (runeWriter \<Rightarrow> View \<Rightarrow> result option) \<Rightarrow>
   runeWriter \<Rightarrow> View \<Rightarrow> result option" where
  "readValue_body readObject' readArray' dest v =
     (case peek v of
        ((r, n, Some err), v1) \<Rightarrow> Some ((n, Some err), v1)
      | ((r, n, None), v1) \<Rightarrow>
          if r = CHR 0x22 then
            (case readString dest v1 of ((nn, err), v2) \<Rightarrow> Some ((n + nn, err), v2))
          else if r = CHR ''-'' \<or> isDigit r then
            (case readNumber dest v1 of ((nn, err), v2) \<Rightarrow> Some ((n + nn, err), v2))
          else if r = CHR ''{'' then
            (case readObject' dest v1 of
               None \<Rightarrow> None
             | Some ((nn, err), v2) \<Rightarrow> Some ((n + nn, err), v2))
          else if r = CHR ''['' then
            (case readArray' dest v1 of
               None \<Rightarrow> None
             | Some ((nn, err), v2) \<Rightarrow> Some ((n + nn, err), v2))
          else Some (readLiteral dest (nextSlice r) (nextSlice r) n v1))"

text \<open>
  \<^verbatim>\<open>readObject\<close> up to its \<^verbatim>\<open>for\<close> loop, and the deferred write of the closing brace.
  \<open>loop dest c num n\<close> is the loop with the outer \<^verbatim>\<open>dest\<close>, the saved path \<^verbatim>\<open>curr\<close>, the
  counter \<^verbatim>\<open>num\<close> and the bytes read so far.
\<close>

definition readObject_body ::
  "(runeWriter \<Rightarrow> string \<Rightarrow> nat \<Rightarrow> nat \<Rightarrow> View \<Rightarrow> result option) \<Rightarrow>
   runeWriter \<Rightarrow> View \<Rightarrow> result option" where
  "readObject_body loop dest v =
     (case next v of
        ((r, n, Some err), v1) \<Rightarrow> Some ((n, Some err), v1)
      | ((r, n, None), v1) \<Rightarrow>
          if r \<noteq> CHR ''{'' then Some ((n, Some (Errorf (''expected '{' got '%c'' @ apos) [r])), v1)
          else
            (case loop dest (curr v1) 0 n (WriteRune dest r v1) of
               None \<Rightarrow> None
             | Some ((n', Some err), v2) \<Rightarrow> Some ((n', Some err), v2)
             | Some ((n', None), v2) \<Rightarrow> Some ((n', None), WriteRune dest (CHR ''}'') v2)))"

text \<open>
  The middle of a round of the loop of \<^verbatim>\<open>readObject\<close>, from \<^verbatim>\<open>key := keyBuf.String()\<close> to the
  write of the key: the path is extended by the key without its quotes, \<^verbatim>\<open>skip\<close> chooses
  the sink, \<^verbatim>\<open>num\<close> counts the keys kept, and the comma and the key go to the chosen sink.
  The result is the sink, the counter and the View.
\<close>

definition readObject_key :: "runeWriter \<Rightarrow> nat \<Rightarrow> View \<Rightarrow> runeWriter \<times> nat \<times> View" where
  "readObject_key dest num v1 =
     (let key = keyBuf v1;
          v2 = v1\<lparr>curr := curr v1 @ ''.'' @ butlast (tl key)\<rparr>;
          sk = skip (filters v2) (curr v2);
          dest' = (if sk then Discard else dest);
          num' = (if sk then num else num + 1);
          v3 = (if num' > 1 then WriteRune dest' (CHR '','') v2 else v2);
          v4 = fold (WriteRune dest') key v3
      in (dest', num', v4))"

text \<open>One round of the loop of \<^verbatim>\<open>readObject\<close>; \<open>loop\<close> is the \<^verbatim>\<open>continue\<close>.\<close>

definition readObject_iter ::
  "(runeWriter \<Rightarrow> View \<Rightarrow> result option) \<Rightarrow>
   (runeWriter \<Rightarrow> string \<Rightarrow> nat \<Rightarrow> nat \<Rightarrow> View \<Rightarrow> result option) \<Rightarrow>
   runeWriter \<Rightarrow> string \<Rightarrow> nat \<Rightarrow> nat \<Rightarrow> View \<Rightarrow> result option" where
  "readObject_iter readValue' loop dest c num n v =
     (case readString KeyBuffer (v\<lparr>curr := c, keyBuf := []\<rparr>) of
        ((nn, Some err), v1) \<Rightarrow> Some ((n + nn, Some err), v1)
      | ((nn, None), v1) \<Rightarrow>
          (case readObject_key dest num v1 of
             (dest', num', v4) \<Rightarrow>
               (case next v4 of
                  ((r, nn2, Some err), v5) \<Rightarrow> Some ((n + nn + nn2, Some err), v5)
                | ((r, nn2, None), v5) \<Rightarrow>
                    if r \<noteq> CHR '':'' then
                      Some ((n + nn + nn2, Some (Errorf (''expected ':' got '%c'' @ apos) [r])), v5)
                    else
                      (case readValue' dest' (WriteRune dest' r v5) of
                         None \<Rightarrow> None
                       | Some ((nn3, Some err), v6) \<Rightarrow> Some ((n + nn + nn2 + nn3, Some err), v6)
                       | Some ((nn3, None), v6) \<Rightarrow>
                           (case next v6 of
                              ((r', nn4, Some err), v7) \<Rightarrow>
                                Some ((n + nn + nn2 + nn3 + nn4, Some err), v7)
                            | ((r', nn4, None), v7) \<Rightarrow>
                                if r' = CHR ''}'' then Some ((n + nn + nn2 + nn3 + nn4, None), v7)
                                else if r' = CHR '','' then
                                  loop dest c num' (n + nn + nn2 + nn3 + nn4) v7
                                else
                                  Some ((n + nn + nn2 + nn3 + nn4,
                                         Some (Errorf (''expected ':' got '%c'' @ apos) [r'])),
                                        v7))))))"

definition readArray_body ::
  "(runeWriter \<Rightarrow> nat \<Rightarrow> View \<Rightarrow> result option) \<Rightarrow> runeWriter \<Rightarrow> View \<Rightarrow> result option" where
  "readArray_body loop dest v =
     (case next v of
        ((r, n, Some err), v1) \<Rightarrow> Some ((n, Some err), v1)
      | ((r, n, None), v1) \<Rightarrow>
          if r \<noteq> CHR ''['' then Some ((n, Some (Errorf (''expected '[' got '%c'' @ apos) [r])), v1)
          else loop dest n (WriteRune dest r v1))"

definition readArray_iter ::
  "(runeWriter \<Rightarrow> View \<Rightarrow> result option) \<Rightarrow> (runeWriter \<Rightarrow> nat \<Rightarrow> View \<Rightarrow> result option) \<Rightarrow>
   runeWriter \<Rightarrow> nat \<Rightarrow> View \<Rightarrow> result option" where
  "readArray_iter readValue' loop dest n v =
     (case readValue' dest v of
        None \<Rightarrow> None
      | Some ((nn, Some err), v1) \<Rightarrow> Some ((n + nn, Some err), v1)
      | Some ((nn, None), v1) \<Rightarrow>
          (case next v1 of
             ((r, nn2, Some err), v2) \<Rightarrow> Some ((n + nn, Some err), v2)
           | ((r, nn2, None), v2) \<Rightarrow>
               if r = CHR '','' then loop dest (n + nn + nn2) (WriteRune dest r v2)
               else if r = CHR '']'' then Some ((n + nn + nn2, None), WriteRune dest r v2)
               else Some ((n + nn + nn2,
                           Some (Errorf (''expected '[' or ',' got '%c'' @ apos) [r])), v2)))"

text \<open>
  The two loops go on as long as the input does, so the recursion is on a counter of the
  calls still allowed; \<open>None\<close> means that it ran out, which \<open>readJSON_total\<close> below shows
  not to happen when the counter starts at \<open>fuel\<close>.
\<close>

fun readValue :: "nat \<Rightarrow> runeWriter \<Rightarrow> View \<Rightarrow> result option"
and readObject_loop :: "nat \<Rightarrow> runeWriter \<Rightarrow> string \<Rightarrow> nat \<Rightarrow> nat \<Rightarrow> View \<Rightarrow> result option"
and readArray_loop :: "nat \<Rightarrow> runeWriter \<Rightarrow> nat \<Rightarrow> View \<Rightarrow> result option"
where
  "readValue 0 dest v = None"
| "readValue (Suc k) dest v =
     readValue_body (readObject_body (\<lambda>d c num n w. readObject_loop k d c num n w))
       (readArray_body (\<lambda>d n w. readArray_loop k d n w)) dest v"
| "readObject_loop 0 dest c num n v = None"
| "readObject_loop (Suc k) dest c num n v =
     readObject_iter (\<lambda>d w. readValue k d w) (\<lambda>d c num n w. readObject_loop k d c num n w)
       dest c num n v"
| "readArray_loop 0 dest n v = None"
| "readArray_loop (Suc k) dest n v =
     readArray_iter (\<lambda>d w. readValue k d w) (\<lambda>d n w. readArray_loop k d n w) dest n v"

definition readObject :: "nat \<Rightarrow> runeWriter \<Rightarrow> View \<Rightarrow> result option" where
  "readObject k = readObject_body (readObject_loop k)"

definition readArray :: "nat \<Rightarrow> runeWriter \<Rightarrow> View \<Rightarrow> result option" where
  "readArray k = readArray_body (readArray_loop k)"

section \<open>The entry point and the read side\<close>

text \<open>The deferred function of \<^verbatim>\<open>readJSON\<close>: every error but \<^verbatim>\<open>io.EOF\<close> becomes a \<^verbatim>\<open>SyntaxError\<close>.\<close>

definition wrapError :: "nat \<Rightarrow> error option \<Rightarrow> error option" where
  "wrapError n err =
     (case err of
        None \<Rightarrow> None
      | Some e \<Rightarrow> if e \<noteq> EOF then Some (SyntaxError n e) else Some e)"

definition readEOF :: "nat \<Rightarrow> View \<Rightarrow> (nat \<times> error option) \<times> View" where
  "readEOF n v =
     (case next v of
        ((r, nn, None), v') \<Rightarrow> ((n, Some (Errorf (''expected EOF, got '%c'' @ apos) [r])), v')
      | ((r, nn, Some err), v') \<Rightarrow> ((n, Some err), v'))"

definition readJSON :: "nat \<Rightarrow> runeWriter \<Rightarrow> View \<Rightarrow> result option" where
  "readJSON k dest v =
     (case (case peek v of
              ((r, n, Some err), v1) \<Rightarrow> Some ((n, Some err), v1)
            | ((r, n, None), v1) \<Rightarrow>
                if r = CHR ''{'' then
                  (case readObject k dest v1 of
                     None \<Rightarrow> None
                   | Some ((nn, Some err), v2) \<Rightarrow> Some ((n + nn, Some err), v2)
                   | Some ((nn, None), v2) \<Rightarrow> Some (readEOF (n + nn) v2))
                else if r = CHR ''['' then
                  (case readArray k dest v1 of
                     None \<Rightarrow> None
                   | Some ((nn, Some err), v2) \<Rightarrow> Some ((n + nn, Some err), v2)
                   | Some ((nn, None), v2) \<Rightarrow> Some (readEOF (n + nn) v2))
                else Some ((n, Some (Errorf (''expected '{' or '[' got '%c'' @ apos) [r])), v1)) of
        None \<Rightarrow> None
      | Some ((n, err), v') \<Rightarrow> Some ((n, wrapError n err), v'))"

text \<open>
  Reading a View to completion (\<^verbatim>\<open>ioutil.ReadAll\<close> over \<^verbatim>\<open>View.Read\<close>): the first read starts
  \<^verbatim>\<open>readJSON\<close> on the pipe; its output is flushed and, when it returned an error, the pipe is
  closed with it.  A pipe closed with \<^verbatim>\<open>io.EOF\<close> ends the stream cleanly; a pipe that is never
  closed leaves the reader blocked.
\<close>

datatype status = EndOfStream | Failed error | Blocked

definition fuel :: "View \<Rightarrow> nat" where
  "fuel v = 2 * length (src v) + 2"

definition ReadAll :: "View \<Rightarrow> (rune list \<times> status) option" where
  "ReadAll v =
     (case readJSON (fuel v) PipeWriter v of
        None \<Rightarrow> None
      | Some ((n, err), v') \<Rightarrow>
          Some (pw v', case err of None \<Rightarrow> Blocked
                       | Some e \<Rightarrow> if e = EOF then EndOfStream else Failed e))"

section \<open>The documented scenario\<close>

text \<open>
  Claim C1.  Reading the View over the menu document to completion, with the filters
  \<^verbatim>\<open>.menu.id\<close> and \<^verbatim>\<open>.menu.popup\<close> added in that order, yields the document without the
  member \<^verbatim>\<open>value\<close> of \<^verbatim>\<open>menu\<close> (the nested \<^verbatim>\<open>value\<close> under \<^verbatim>\<open>popup\<close> stays), and then
  a clean end of stream.
\<close>

theorem menu_scenario:
  \<open>ReadAll (AddFilter ''.menu.popup'' (AddFilter ''.menu.id'' (NewView
      ''{"menu":{"id":"file","value":"File","popup":{"menuitem":[{"value":"New"}]}}}'')))
   = Some (''{"menu":{"id":"file","popup":{"menuitem":[{"value":"New"}]}}}'', EndOfStream)\<close>
  by code_simp

section \<open>The lookahead of a number\<close>

text \<open>
  Claim C3 asks that the rune read past the end of a number is pushed back when
  \<^verbatim>\<open>readNumber\<close> succeeds.  The deferred function unreads only when \<^verbatim>\<open>err != nil\<close>: on
  \<^verbatim>\<open>1,2\<close> the call succeeds having read one byte of number, and the next rune the caller
  reads is \<^verbatim>\<open>2\<close>; the comma is gone.  Seen from outside, \<^verbatim>\<open>[1]\<close> comes out as \<^verbatim>\<open>[1\<close>.
\<close>

theorem readNumber_drops_lookahead:
  \<open>fst (readNumber PipeWriter (NewView ''1,2'')) = (1, None)
   \<and> fst (ReadRune (snd (readNumber PipeWriter (NewView ''1,2'')))) = (CHR ''2'', 1, None)
   \<and> ReadAll (NewView ''[1]'') = Some (''[1'', EndOfStream)\<close>
  by code_simp

section \<open>Empty containers\<close>

text \<open>
  Claim C10.  The empty array is accepted and comes out as it is, because \<^verbatim>\<open>readValue\<close>
  on a rune that starts no value reads nothing and reports no error; the empty object
  fails with a syntax error, raised by the \<^verbatim>\<open>readString\<close> that expects a key.
\<close>

theorem empty_containers:
  \<open>ReadAll (NewView ''[]'') = Some (''[]'', EndOfStream)
   \<and> readValue 1 PipeWriter (NewView '']'') = Some ((0, None), NewView '']'')
   \<and> ReadAll (NewView ''{}'')
       = Some (''{'', Failed (SyntaxError 2 (Errorf (''expected '"' got '%c'' @ apos) ''}'')))
   \<and> fst (readString KeyBuffer (NewView ''}''))
       = (1, Some (Errorf (''expected '"' got '%c'' @ apos) ''}''))\<close>
  by code_simp

section \<open>What the path matcher decides\<close>

text \<open>
  The rule of the specification for one filter \<open>f\<close> and the candidate path \<open>c\<close>: they are
  equal, or one is a strict prefix of the other and the longer one continues with the
  separator.
\<close>

definition retains :: "string \<Rightarrow> string \<Rightarrow> bool" where
  "retains f c =
     (f = c \<or> (strict_prefix f c \<and> c ! length f = CHR ''.'')
            \<or> (strict_prefix c f \<and> f ! length c = CHR ''.''))"

lemma prefix_not_shorter: "prefix xs ys \<Longrightarrow> length ys \<le> length xs \<Longrightarrow> xs = ys"
  by (auto simp: prefix_def)

text \<open>
  The index \<^verbatim>\<open>longer[len(shorter)]\<close> of \<^verbatim>\<open>skip\<close> is in range: it is reached only with two
  different strings of which the shorter is a prefix of the longer.
\<close>

lemma skip_index_in_range:
  "prefix shorter longer \<Longrightarrow> shorter \<noteq> longer \<Longrightarrow> length shorter < length longer"
  using prefix_not_shorter [of shorter longer] by (cases "length shorter < length longer") auto

lemma skip_Cons: "skip (f # fs) c = (\<not> retains f c \<and> skip fs c)"
proof (cases "f = c")
  case True
  then show ?thesis by (simp add: retains_def)
next
  case neq: False
  show ?thesis
  proof (cases "length f < length c")
    case True
    then have "\<not> strict_prefix c f"
      by (auto simp: strict_prefix_def dest: prefix_length_le)
    with neq True show ?thesis
      by (auto simp: retains_def strict_prefix_def)
  next
    case False
    then have "\<not> strict_prefix f c"
      by (auto simp: strict_prefix_def dest: prefix_not_shorter)
    with neq False show ?thesis
      by (auto simp: retains_def strict_prefix_def)
  qed
qed

lemma skip_iff: "skip F c \<longleftrightarrow> \<not> (\<exists>f\<in>set F. retains f c)"
  by (induction F) (simp_all add: skip_Cons del: skip.simps(2))

text \<open>
  Claim C4.  \<^verbatim>\<open>skip\<close> answers true exactly when no filter is equal to the path, or a strict
  prefix of it followed there by a dot, or a strict extension of it continuing with a dot.
  The answer therefore depends on the set of filters only: order and repetition do not
  matter.
\<close>

theorem skip_decision:
  "(skip F c \<longleftrightarrow>
      \<not> (\<exists>f\<in>set F. f = c \<or> (strict_prefix f c \<and> c ! length f = CHR ''.'')
                        \<or> (strict_prefix c f \<and> f ! length c = CHR ''.'')))
   \<and> (set F = set G \<longrightarrow> skip F c = skip G c)"
  using skip_iff [of F c] skip_iff [of G c] by (auto simp: retains_def)

theorem skip_decision_witness:
  "set [''.a'', ''.b.c''] = set [''.b.c'', ''.a'', ''.a'']
   \<and> skip [''.a'', ''.b.c''] ''.b'' = skip [''.b.c'', ''.a'', ''.a''] ''.b''
   \<and> \<not> skip [''.a'', ''.b.c''] ''.b''
   \<and> skip [''.a'', ''.b.c''] ''.ab''"
  using skip_decision [of "[''.a'', ''.b.c'']" "''.b''" "[''.b.c'', ''.a'', ''.a'']"]
  by (auto simp: strict_prefix_def)

section \<open>Facts about the scanner\<close>

declare next_loop.simps [simp del] peek_loop.simps [simp del] readHex.simps [simp del]
  readString_loop.simps [simp del] readDigits.simps [simp del]

definition byteLen :: "rune list \<Rightarrow> nat" where
  "byteLen rs = sum_list (map RuneLen rs)"

lemma byteLen_simps [simp]:
  "byteLen [] = 0" "byteLen (r # rs) = RuneLen r + byteLen rs"
  "byteLen (xs @ ys) = byteLen xs + byteLen ys"
  by (simp_all add: byteLen_def)

definition blank :: "rune list \<Rightarrow> bool" where
  "blank ws = (\<forall>c\<in>set ws. isSpace c)"

lemma blank_simps [simp]:
  "blank []" "blank (c # cs) = (isSpace c \<and> blank cs)" "blank (xs @ ys) = (blank xs \<and> blank ys)"
  by (auto simp: blank_def)

lemma next_loop_skips:
  "blank ws \<Longrightarrow> \<not> isSpace c \<Longrightarrow> src v = ws @ c # rest \<Longrightarrow>
   next_loop n v = ((c, n + byteLen ws + RuneLen c, None), v\<lparr>src := rest, lastRune := Some c\<rparr>)"
proof (induction ws arbitrary: n v)
  case Nil
  then show ?case by (subst next_loop.simps) (simp add: ReadRune_def)
next
  case (Cons w ws)
  have "next_loop (n + RuneLen w) (v\<lparr>src := ws @ c # rest, lastRune := Some w\<rparr>)
        = ((c, n + RuneLen w + byteLen ws + RuneLen c, None),
           v\<lparr>src := ws @ c # rest, lastRune := Some w\<rparr>\<lparr>src := rest, lastRune := Some c\<rparr>)"
    using Cons.prems by (intro Cons.IH) simp_all
  with Cons.prems show ?case
    by (subst next_loop.simps) (simp add: ReadRune_def)
qed

lemma next_skips:
  "blank ws \<Longrightarrow> \<not> isSpace c \<Longrightarrow> src v = ws @ c # rest \<Longrightarrow>
   next v = ((c, byteLen ws + RuneLen c, None), v\<lparr>src := rest, lastRune := Some c\<rparr>)"
  using next_loop_skips [of ws c v rest 0] by (simp add: next_def)

lemma next_loop_eof:
  "blank ws \<Longrightarrow> src v = ws \<Longrightarrow>
   next_loop n v = ((CHR 0x00, n + byteLen ws, Some EOF), v\<lparr>src := [], lastRune := None\<rparr>)"
proof (induction ws arbitrary: n v)
  case Nil
  then show ?case by (subst next_loop.simps) (simp add: ReadRune_def)
next
  case (Cons w ws)
  have "next_loop (n + RuneLen w) (v\<lparr>src := ws, lastRune := Some w\<rparr>)
        = ((CHR 0x00, n + RuneLen w + byteLen ws, Some EOF),
           v\<lparr>src := ws, lastRune := Some w\<rparr>\<lparr>src := [], lastRune := None\<rparr>)"
    using Cons.prems by (intro Cons.IH) simp_all
  with Cons.prems show ?case
    by (subst next_loop.simps) (simp add: ReadRune_def)
qed

lemma next_eof:
  "blank ws \<Longrightarrow> src v = ws \<Longrightarrow>
   next v = ((CHR 0x00, byteLen ws, Some EOF), v\<lparr>src := [], lastRune := None\<rparr>)"
  using next_loop_eof [of ws v 0] by (simp add: next_def)

lemma peek_loop_skips:
  "blank ws \<Longrightarrow> \<not> isSpace c \<Longrightarrow> src v = ws @ c # rest \<Longrightarrow>
   peek_loop n v = ((c, n + byteLen ws, None), v\<lparr>src := c # rest, lastRune := None\<rparr>)"
proof (induction ws arbitrary: n v)
  case Nil
  then show ?case by (subst peek_loop.simps) (simp add: ReadRune_def UnreadRune_def)
next
  case (Cons w ws)
  have "peek_loop (n + RuneLen w) (v\<lparr>src := ws @ c # rest, lastRune := Some w\<rparr>)
        = ((c, n + RuneLen w + byteLen ws, None),
           v\<lparr>src := ws @ c # rest, lastRune := Some w\<rparr>\<lparr>src := c # rest, lastRune := None\<rparr>)"
    using Cons.prems by (intro Cons.IH) simp_all
  with Cons.prems show ?case
    by (subst peek_loop.simps) (simp add: ReadRune_def)
qed

lemma peek_skips:
  "blank ws \<Longrightarrow> \<not> isSpace c \<Longrightarrow> src v = ws @ c # rest \<Longrightarrow>
   peek v = ((c, byteLen ws, None), v\<lparr>src := c # rest, lastRune := None\<rparr>)"
  using peek_loop_skips [of ws c v rest 0] by (simp add: peek_def)

lemma peek_loop_eof:
  "blank ws \<Longrightarrow> src v = ws \<Longrightarrow>
   peek_loop n v = ((CHR 0x00, n + byteLen ws, Some EOF), v\<lparr>src := [], lastRune := None\<rparr>)"
proof (induction ws arbitrary: n v)
  case Nil
  then show ?case by (subst peek_loop.simps) (simp add: ReadRune_def)
next
  case (Cons w ws)
  have "peek_loop (n + RuneLen w) (v\<lparr>src := ws, lastRune := Some w\<rparr>)
        = ((CHR 0x00, n + RuneLen w + byteLen ws, Some EOF),
           v\<lparr>src := ws, lastRune := Some w\<rparr>\<lparr>src := [], lastRune := None\<rparr>)"
    using Cons.prems by (intro Cons.IH) simp_all
  with Cons.prems show ?case
    by (subst peek_loop.simps) (simp add: ReadRune_def)
qed

lemma peek_eof:
  "blank ws \<Longrightarrow> src v = ws \<Longrightarrow>
   peek v = ((CHR 0x00, byteLen ws, Some EOF), v\<lparr>src := [], lastRune := None\<rparr>)"
  using peek_loop_eof [of ws v 0] by (simp add: peek_def)


section \<open>String tokens\<close>

text \<open>\<open>emit dest rs\<close> writes the runes \<open>rs\<close> to \<open>dest\<close> one by one.\<close>

definition emit :: "runeWriter \<Rightarrow> rune list \<Rightarrow> View \<Rightarrow> View" where
  "emit dest rs v = fold (WriteRune dest) rs v"

lemma emit_eq:
  "emit dest rs v =
     (case dest of
        PipeWriter \<Rightarrow> v\<lparr>pw := pw v @ rs\<rparr>
      | KeyBuffer \<Rightarrow> v\<lparr>keyBuf := keyBuf v @ rs\<rparr>
      | Discard \<Rightarrow> v)"
  unfolding emit_def
  by (induction rs arbitrary: v) (simp_all add: WriteRune_def split: runeWriter.splits)

lemma WriteRune_emit: "WriteRune dest r v = emit dest [r] v"
  by (simp add: emit_def)

lemma emit_simps [simp]:
  "emit dest [] v = v"
  "emit dest xs (emit dest ys v) = emit dest (ys @ xs) v"
  "src (emit dest xs v) = src v"
  "lastRune (emit dest xs v) = lastRune v"
  "filters (emit dest xs v) = filters v"
  "curr (emit dest xs v) = curr v"
  "emit dest xs (v\<lparr>src := s\<rparr>) = (emit dest xs v)\<lparr>src := s\<rparr>"
  "emit dest xs (v\<lparr>lastRune := l\<rparr>) = (emit dest xs v)\<lparr>lastRune := l\<rparr>"
  "emit dest xs (v\<lparr>curr := c\<rparr>) = (emit dest xs v)\<lparr>curr := c\<rparr>"
  by (simp_all add: emit_eq split: runeWriter.splits)

lemma emit_sinks [simp]:
  "pw (emit PipeWriter xs v) = pw v @ xs"
  "pw (emit Discard xs v) = pw v"
  "pw (emit KeyBuffer xs v) = pw v"
  "keyBuf (emit KeyBuffer xs v) = keyBuf v @ xs"
  "emit Discard xs v = v"
  by (simp_all add: emit_eq)

text \<open>
  A well-formed string token, item by item: a character other than the quote and the
  backslash, a two-character escape, or \<^verbatim>\<open>\u\<close> with four hex digits.
\<close>

datatype item = Plain rune | Escape rune | Unicode rune rune rune rune

fun item_text :: "item \<Rightarrow> rune list" where
  "item_text (Plain c) = [c]"
| "item_text (Escape e) = [CHR 0x5C, e]"
| "item_text (Unicode a b c d) = [CHR 0x5C, CHR ''u'', a, b, c, d]"

fun wf_item :: "item \<Rightarrow> bool" where
  "wf_item (Plain c) = (c \<noteq> CHR 0x22 \<and> c \<noteq> CHR 0x5C)"
| "wf_item (Escape e) = isEscape e"
| "wf_item (Unicode a b c d) = (isHex a \<and> isHex b \<and> isHex c \<and> isHex d)"

definition body :: "item list \<Rightarrow> rune list" where
  "body items = concat (map item_text items)"

definition token :: "item list \<Rightarrow> rune list" where
  "token items = CHR 0x22 # body items @ [CHR 0x22]"

lemma body_simps [simp]: "body [] = []" "body (i # items) = item_text i @ body items"
  by (simp_all add: body_def)

lemma readHex_digits:
  assumes "isHex a" "isHex b" "isHex c" "isHex d" "src v = a # b # c # d # rest"
  shows "readHex 0 dest n v =
           ((n + byteLen [a, b, c, d], None),
            (emit dest [a, b, c, d] v)\<lparr>src := rest, lastRune := Some d\<rparr>)"
proof -
  have 4: "readHex (Suc (Suc (Suc (Suc 0)))) dest m w = ((m, None), w)" for m w
    by (subst readHex.simps) simp
  have 3: "readHex (Suc (Suc (Suc 0))) dest m w = ((m + RuneLen d, None), (emit dest [d] w)\<lparr>src := rest, lastRune := Some d\<rparr>)"
    if "src w = d # rest" for m w
    using that assms(4) by (subst readHex.simps) (simp add: ReadRune_def 4 WriteRune_emit)
  have 2: "readHex (Suc (Suc 0)) dest m w = ((m + RuneLen c + RuneLen d, None), (emit dest [c, d] w)\<lparr>src := rest, lastRune := Some d\<rparr>)"
    if "src w = c # d # rest" for m w
    using that assms(3) by (subst readHex.simps) (simp add: ReadRune_def 3 WriteRune_emit)
  have 1: "readHex (Suc 0) dest m w = ((m + RuneLen b + RuneLen c + RuneLen d, None), (emit dest [b, c, d] w)\<lparr>src := rest, lastRune := Some d\<rparr>)"
    if "src w = b # c # d # rest" for m w
    using that assms(2) by (subst readHex.simps) (simp add: ReadRune_def 2 WriteRune_emit)
  show ?thesis
    using assms(1,5) by (subst readHex.simps) (simp add: ReadRune_def 1 WriteRune_emit)
qed

lemma isEscape_not_u: "isEscape e \<Longrightarrow> e \<noteq> CHR ''u''"
  by (auto simp: isEscape_def)

lemma ReadRune_lastRune [simp]: "ReadRune (v\<lparr>lastRune := l\<rparr>) = ReadRune v"
  by (simp add: ReadRune_def split: list.splits)

lemma readString_loop_lastRune [simp]:
  "readString_loop dest n (v\<lparr>lastRune := l\<rparr>) = readString_loop dest n v"
  by (subst readString_loop.simps, subst (2) readString_loop.simps) simp

text \<open>The loop of \<^verbatim>\<open>readString\<close> copies well-formed items and goes on behind them.\<close>

lemma readString_loop_items:
  "\<forall>i\<in>set items. wf_item i \<Longrightarrow> src v = body items @ rest \<Longrightarrow>
   readString_loop dest n v =
     readString_loop dest (n + byteLen (body items)) ((emit dest (body items) v)\<lparr>src := rest\<rparr>)"
proof (induction items arbitrary: n v)
  case Nil
  then have "v\<lparr>src := rest\<rparr> = v" by simp
  then show ?case by simp
next
  case (Cons i items)
  have wf: "\<forall>i\<in>set items. wf_item i" using Cons.prems by simp
  let ?w = "(emit dest (item_text i) v)\<lparr>src := body items @ rest\<rparr>"
  have step: "readString_loop dest n v = readString_loop dest (n + byteLen (item_text i)) ?w"
  proof (cases i)
    case (Plain c)
    with Cons.prems show ?thesis
      by (subst readString_loop.simps) (simp add: ReadRune_def WriteRune_emit)
  next
    case (Escape e)
    with Cons.prems show ?thesis
      by (subst readString_loop.simps) (simp add: ReadRune_def WriteRune_emit add.assoc)
  next
    case (Unicode a b c d)
    let ?u = "emit dest [CHR 0x5C, CHR ''u'']
                (v\<lparr>src := a # b # c # d # body items @ rest, lastRune := Some (CHR ''u'')\<rparr>)"
    have "readHex 0 dest (n + RuneLen (CHR 0x5C) + RuneLen (CHR ''u'')) ?u =
            ((n + RuneLen (CHR 0x5C) + RuneLen (CHR ''u'') + byteLen [a, b, c, d], None),
             (emit dest [a, b, c, d] ?u)\<lparr>src := body items @ rest, lastRune := Some d\<rparr>)"
      using Cons.prems Unicode by (intro readHex_digits) simp_all
    with Cons.prems Unicode show ?thesis
      by (subst readString_loop.simps)
         (simp add: ReadRune_def WriteRune_emit isEscape_def add.assoc)
  qed
  have "readString_loop dest (n + byteLen (item_text i)) ?w =
          readString_loop dest (n + byteLen (item_text i) + byteLen (body items))
            ((emit dest (body items) ?w)\<lparr>src := rest\<rparr>)"
    by (intro Cons.IH wf) simp
  with step show ?case by (simp add: add.assoc)
qed

lemma readString_loop_body:
  assumes "\<forall>i\<in>set items. wf_item i" "src v = body items @ CHR 0x22 # rest"
  shows "readString_loop dest n v =
           ((n + byteLen (body items) + 1, None),
            (emit dest (body items @ [CHR 0x22]) v)\<lparr>src := rest, lastRune := Some (CHR 0x22)\<rparr>)"
  unfolding readString_loop_items [OF assms, of dest n]
  by (subst readString_loop.simps) (simp add: ReadRune_def WriteRune_emit RuneLen_def)

lemma readString_loop_bad_escape:
  assumes "\<forall>i\<in>set items. wf_item i" "src v = body items @ CHR 0x5C # c # rest"
    "\<not> isEscape c" "c \<noteq> CHR ''u''"
  shows "readString_loop dest n v =
           ((n + byteLen (body items) + 1 + RuneLen c,
             Some (Errorf (''unexpected error after '/': '%c'' @ apos) [c])),
            (emit dest (body items @ [CHR 0x5C]) v)\<lparr>src := rest, lastRune := Some c\<rparr>)"
  unfolding readString_loop_items [OF assms(1,2), of dest n]
  using assms(3,4)
  by (subst readString_loop.simps) (simp add: ReadRune_def WriteRune_emit RuneLen_def)

lemma not_isSpace_quote [simp]: "\<not> isSpace (CHR 0x22)"
  by (simp add: isSpace_def)

lemma readString_token:
  assumes "\<forall>i\<in>set items. wf_item i" "blank ws" "src v = ws @ token items @ rest"
  shows "readString dest v =
           ((byteLen ws + byteLen (token items), None),
            (emit dest (token items) v)\<lparr>src := rest, lastRune := Some (CHR 0x22)\<rparr>)"
proof -
  let ?w = "v\<lparr>src := body items @ CHR 0x22 # rest, lastRune := Some (CHR 0x22)\<rparr>"
  have nx: "next v = ((CHR 0x22, byteLen ws + RuneLen (CHR 0x22), None), ?w)"
    using assms(2,3) by (intro next_skips) (simp_all add: token_def)
  have "readString_loop dest (byteLen ws + RuneLen (CHR 0x22)) (emit dest [CHR 0x22] ?w) =
          ((byteLen ws + RuneLen (CHR 0x22) + byteLen (body items) + 1, None),
           (emit dest (body items @ [CHR 0x22]) (emit dest [CHR 0x22] ?w))\<lparr>src := rest, lastRune := Some (CHR 0x22)\<rparr>)"
    using assms(1) by (intro readString_loop_body) simp_all
  then show ?thesis
    by (simp add: readString_def nx WriteRune_emit token_def RuneLen_def)
qed


lemma readString_bad_escape:
  assumes "\<forall>i\<in>set items. wf_item i" "blank ws"
    "src v = ws @ CHR 0x22 # body items @ CHR 0x5C # c # rest" "\<not> isEscape c" "c \<noteq> CHR ''u''"
  shows "readString dest v =
           ((byteLen ws + 1 + byteLen (body items) + 1 + RuneLen c,
             Some (Errorf (''unexpected error after '/': '%c'' @ apos) [c])),
            (emit dest (CHR 0x22 # body items @ [CHR 0x5C]) v)\<lparr>src := rest, lastRune := Some c\<rparr>)"
proof -
  let ?w = "v\<lparr>src := body items @ CHR 0x5C # c # rest, lastRune := Some (CHR 0x22)\<rparr>"
  have nx: "next v = ((CHR 0x22, byteLen ws + RuneLen (CHR 0x22), None), ?w)"
    using assms(2,3) by (intro next_skips) simp_all
  have "readString_loop dest (byteLen ws + RuneLen (CHR 0x22)) (emit dest [CHR 0x22] ?w) =
          ((byteLen ws + RuneLen (CHR 0x22) + byteLen (body items) + 1 + RuneLen c,
            Some (Errorf (''unexpected error after '/': '%c'' @ apos) [c])),
           (emit dest (body items @ [CHR 0x5C]) (emit dest [CHR 0x22] ?w))\<lparr>src := rest, lastRune := Some c\<rparr>)"
    using assms(1,4,5) by (intro readString_loop_bad_escape) simp_all
  then show ?thesis
    by (simp add: readString_def nx WriteRune_emit RuneLen_def)
qed

text \<open>
  Claim C8.  \<^verbatim>\<open>readString\<close> on a well-formed string token, after any whitespace, reads
  exactly the token and writes it to the sink rune for rune; on a backslash followed by a
  character that is neither one of the eight escapes nor \<^verbatim>\<open>u\<close>, after well-formed items, it
  fails with the grammar error of the escape switch.
\<close>

theorem readString_round_trip:
  "((\<forall>i\<in>set items. wf_item i) \<and> blank ws \<and> src v = ws @ token items @ rest \<longrightarrow>
      readString dest v =
        ((byteLen ws + byteLen (token items), None),
         (emit dest (token items) v)\<lparr>src := rest, lastRune := Some (CHR 0x22)\<rparr>)
      \<and> pw (snd (readString PipeWriter v)) = pw v @ token items)
   \<and> ((\<forall>i\<in>set items'. wf_item i) \<and> blank ws'
        \<and> src v' = ws' @ CHR 0x22 # body items' @ CHR 0x5C # c # rest'
        \<and> \<not> isEscape c \<and> c \<noteq> CHR ''u'' \<longrightarrow>
      fst (readString dest v') =
        (byteLen ws' + 1 + byteLen (body items') + 1 + RuneLen c,
         Some (Errorf (''unexpected error after '/': '%c'' @ apos) [c])))"
  using readString_token [of items ws v rest]
    readString_bad_escape [of items' ws' v' c rest' dest]
  by simp

theorem readString_round_trip_witness:
  "pw (snd (readString PipeWriter (NewView ('' '' @
      token [Plain (CHR ''a''), Escape (CHR ''n''),
             Unicode (CHR ''0'') (CHR ''0'') (CHR ''e'') (CHR ''F'')] @ '',1''))))
     = token [Plain (CHR ''a''), Escape (CHR ''n''),
              Unicode (CHR ''0'') (CHR ''0'') (CHR ''e'') (CHR ''F'')]
   \<and> fst (readString PipeWriter
          (NewView (CHR 0x22 # body [Plain (CHR ''a'')] @ CHR 0x5C # CHR ''x'' # ''b'')))
     = (4, Some (Errorf (''unexpected error after '/': '%c'' @ apos) ''x''))"
proof -
  let ?items = "[Plain (CHR ''a''), Escape (CHR ''n''),
                 Unicode (CHR ''0'') (CHR ''0'') (CHR ''e'') (CHR ''F'')]"
  have 1: "\<forall>i\<in>set ?items. wf_item i"
    by (simp add: isEscape_def isHex_def)
  have 2: "\<forall>i\<in>set [Plain (CHR ''a'')]. wf_item i"
    by simp
  have 3: "\<not> isEscape (CHR ''x'')"
    by (simp add: isEscape_def)
  show ?thesis
    using 1 2 3
      readString_round_trip [where items = ?items and ws = "'' ''" and rest = "'',1''"
        and v = "NewView ('' '' @ token ?items @ '',1'')" and dest = PipeWriter
        and items' = "[Plain (CHR ''a'')]" and ws' = "[]" and c = "CHR ''x''" and rest' = "''b''"
        and v' = "NewView (CHR 0x22 # body [Plain (CHR ''a'')] @ CHR 0x5C # CHR ''x'' # ''b'')"]
    by (simp add: NewView_def isSpace_def RuneLen_def)
qed

section \<open>The parse always returns\<close>

text \<open>
  No function of the parser makes the remaining source longer, and each round of a loop
  makes it shorter; so a counter of twice the length of the source, plus two, never runs
  out.
\<close>

lemma UnreadRune_after_ReadRune:
  "ReadRune v = ((c, s, None), v') \<Longrightarrow> UnreadRune v' = (e, v'') \<Longrightarrow> length (src v'') \<le> length (src v)"
  by (auto simp: ReadRune_def UnreadRune_def split: list.splits)

lemma next_loop_not_longer:
  "next_loop n v = (res, v') \<Longrightarrow> length (src v') \<le> length (src v)"
proof (induction n v arbitrary: res v' rule: next_loop.induct)
  case (1 n v)
  obtain c s e v1 where rr: "ReadRune v = ((c, s, e), v1)"
    by (metis prod_cases3 surj_pair)
  have le1: "length (src v1) \<le> length (src v)"
    using rr by (rule ReadRune_not_longer)
  show ?case
  proof (cases "e = None \<and> isSpace c")
    case False
    with "1.prems" rr le1 show ?thesis
      by (subst (asm) next_loop.simps) (auto split: option.splits if_splits)
  next
    case True
    with "1.prems" rr have "next_loop (n + s) v1 = (res, v')"
      by (subst (asm) next_loop.simps) simp
    from "1.IH" [OF rr [symmetric] refl refl _ _ this] True le1 show ?thesis by simp
  qed
qed

lemma next_not_longer: "next v = (res, v') \<Longrightarrow> length (src v') \<le> length (src v)"
  unfolding next_def by (rule next_loop_not_longer)

lemma next_loop_shorter:
  "next_loop n v = ((c, m, None), v') \<Longrightarrow> length (src v') < length (src v)"
proof (induction n v arbitrary: c m v' rule: next_loop.induct)
  case (1 n v)
  obtain r s e v1 where rr: "ReadRune v = ((r, s, e), v1)"
    by (metis prod_cases3 surj_pair)
  show ?case
  proof (cases "e = None \<and> isSpace r")
    case False
    with "1.prems" rr ReadRune_shorter [of v r s v1] show ?thesis
      by (subst (asm) next_loop.simps) (auto split: option.splits if_splits)
  next
    case True
    with "1.prems" rr have "next_loop (n + s) v1 = ((c, m, None), v')"
      by (subst (asm) next_loop.simps) simp
    from "1.IH" [OF rr [symmetric] refl refl _ _ this] True ReadRune_not_longer [OF rr]
    show ?thesis by simp
  qed
qed

lemma next_shorter: "next v = ((c, m, None), v') \<Longrightarrow> length (src v') < length (src v)"
  unfolding next_def by (rule next_loop_shorter)

lemma peek_loop_not_longer:
  "peek_loop n v = (res, v') \<Longrightarrow> length (src v') \<le> length (src v)"
proof (induction n v arbitrary: res v' rule: peek_loop.induct)
  case (1 n v)
  obtain c s e v1 where rr: "ReadRune v = ((c, s, e), v1)"
    by (metis prod_cases3 surj_pair)
  have le1: "length (src v1) \<le> length (src v)"
    using rr by (rule ReadRune_not_longer)
  show ?case
  proof (cases "e = None \<and> isSpace c")
    case False
    with "1.prems" rr le1 UnreadRune_after_ReadRune [of v c s v1] show ?thesis
      by (subst (asm) peek_loop.simps) (auto split: option.splits if_splits prod.splits)
  next
    case True
    with "1.prems" rr have "peek_loop (n + s) v1 = (res, v')"
      by (subst (asm) peek_loop.simps) simp
    from "1.IH" [OF rr [symmetric] refl refl _ _ this] True le1 show ?thesis by simp
  qed
qed

lemma peek_not_longer: "peek v = (res, v') \<Longrightarrow> length (src v') \<le> length (src v)"
  unfolding peek_def by (rule peek_loop_not_longer)


lemma readString_loop_not_longer:
  "readString_loop dest n v = (res, v') \<Longrightarrow> length (src v') \<le> length (src v)"
proof (induction "length (src v)" arbitrary: n v res v' rule: less_induct)
  case less
  obtain r s e v1 where rr: "ReadRune v = ((r, s, e), v1)"
    by (metis prod_cases3 surj_pair)
  obtain r2 s2 e2 v2 where rr2: "ReadRune (WriteRune dest r v1) = ((r2, s2, e2), v2)"
    by (metis prod_cases3 surj_pair)
  obtain n3 e3 v3 where rh: "readHex 0 dest (n + s + s2) (WriteRune dest r2 v2) = ((n3, e3), v3)"
    by (metis surj_pair)
  have le1: "length (src v1) \<le> length (src v)"
    using rr by (rule ReadRune_not_longer)
  have le2: "length (src v2) \<le> length (src v1)"
    using ReadRune_not_longer [OF rr2] by simp
  have le3: "length (src v3) \<le> length (src v2)"
    using readHex_not_longer [OF rh] by simp
  have lt1: "e = None \<Longrightarrow> length (src v1) < length (src v)"
    using rr ReadRune_shorter by blast
  have IH: "length (src w) < length (src v) \<Longrightarrow> readString_loop dest m w = (res, v')
            \<Longrightarrow> length (src v') \<le> length (src w)" for w m
    using less.hyps by blast
  note facts = le1 le2 le3 lt1 rr rr2 rh
  consider (eof) "e \<noteq> None"
    | (quote) "e = None" "r = CHR 0x22"
    | (plain) "e = None" "r \<noteq> CHR 0x22" "r \<noteq> CHR 0x5C"
    | (eof2) "e = None" "r = CHR 0x5C" "e2 \<noteq> None"
    | (esc) "e = None" "r = CHR 0x5C" "e2 = None" "isEscape r2"
    | (bad) "e = None" "r = CHR 0x5C" "e2 = None" "\<not> isEscape r2" "r2 \<noteq> CHR ''u''"
    | (hexbad) "e = None" "r = CHR 0x5C" "e2 = None" "\<not> isEscape r2" "r2 = CHR ''u''" "e3 \<noteq> None"
    | (hex) "e = None" "r = CHR 0x5C" "e2 = None" "\<not> isEscape r2" "r2 = CHR ''u''" "e3 = None"
    by blast
  then show ?case
  proof cases
    case eof
    with less.prems facts show ?thesis
      by (subst (asm) readString_loop.simps) auto
  next
    case quote
    with less.prems facts show ?thesis
      by (subst (asm) readString_loop.simps) auto
  next
    case plain
    with less.prems facts have "readString_loop dest (n + s) (WriteRune dest r v1) = (res, v')"
      by (subst (asm) readString_loop.simps) auto
    from IH [OF _ this] plain facts show ?thesis by simp
  next
    case eof2
    with less.prems facts show ?thesis
      by (subst (asm) readString_loop.simps) auto
  next
    case esc
    with less.prems facts
    have "readString_loop dest (n + s + s2) (WriteRune dest r2 v2) = (res, v')"
      by (subst (asm) readString_loop.simps) auto
    from IH [OF _ this] esc facts show ?thesis by simp
  next
    case bad
    with less.prems facts show ?thesis
      by (subst (asm) readString_loop.simps) auto
  next
    case hexbad
    with less.prems facts show ?thesis
      by (subst (asm) readString_loop.simps) auto
  next
    case hex
    with less.prems facts have "readString_loop dest n3 v3 = (res, v')"
      by (subst (asm) readString_loop.simps) auto
    from IH [OF _ this] hex facts show ?thesis by simp
  qed
qed

lemma readString_not_longer:
  "readString dest v = (res, v') \<Longrightarrow> length (src v') \<le> length (src v)"
proof -
  assume a: "readString dest v = (res, v')"
  obtain r n e v1 where nx: "next v = ((r, n, e), v1)"
    by (metis prod_cases3 surj_pair)
  have le1: "length (src v1) \<le> length (src v)"
    using nx by (rule next_not_longer)
  from a nx le1 readString_loop_not_longer [of dest n "WriteRune dest r v1" res v']
  show ?thesis
    by (auto simp: readString_def split: option.splits if_splits)
qed

lemma readString_shorter:
  "readString dest v = ((n, None), v') \<Longrightarrow> length (src v') < length (src v)"
proof -
  assume a: "readString dest v = ((n, None), v')"
  obtain r m e v1 where nx: "next v = ((r, m, e), v1)"
    by (metis prod_cases3 surj_pair)
  from a nx next_shorter [of v r m v1]
    readString_loop_not_longer [of dest m "WriteRune dest r v1" "(n, None)" v']
  show ?thesis
    by (auto simp: readString_def split: option.splits if_splits)
qed

lemma readDigits_not_longer:
  "readDigits dest n v = (res, v') \<Longrightarrow> length (src v') \<le> length (src v)"
proof (induction dest n v arbitrary: res v' rule: readDigits.induct)
  case (1 dest n v)
  obtain c s e v1 where rr: "ReadRune v = ((c, s, e), v1)"
    by (metis prod_cases3 surj_pair)
  have le1: "length (src v1) \<le> length (src v)"
    using rr by (rule ReadRune_not_longer)
  show ?case
  proof (cases "e = None \<and> isDigit c")
    case False
    with "1.prems" rr le1 show ?thesis
      by (subst (asm) readDigits.simps) (auto split: option.splits if_splits)
  next
    case True
    with "1.prems" rr have "readDigits dest (n + s) (WriteRune dest c v1) = (res, v')"
      by (subst (asm) readDigits.simps) simp
    from "1.IH" [OF rr [symmetric] refl refl _ _ this] True le1 show ?thesis by simp
  qed
qed

lemma readLiteral_not_longer:
  "readLiteral dest lit cs n v = (res, v') \<Longrightarrow> length (src v') \<le> length (src v)"
proof (induction cs arbitrary: n v)
  case Nil
  then show ?case by simp
next
  case (Cons c cs)
  obtain r s e v1 where rr: "ReadRune v = ((r, s, e), v1)"
    by (metis prod_cases3 surj_pair)
  have le1: "length (src v1) \<le> length (src v)"
    using rr by (rule ReadRune_not_longer)
  from Cons.prems rr le1 Cons.IH [of "n + s" "WriteRune dest r v1"] show ?case
    by (auto split: option.splits if_splits)
qed


lemma ReadRune_error: "ReadRune v = ((c, s, Some e), v') \<Longrightarrow> lastRune v' = None"
  by (auto simp: ReadRune_def split: list.splits)

lemma readDigits_error:
  "readDigits dest n v = ((r, nn, m, Some e), v') \<Longrightarrow> lastRune v' = None"
proof (induction dest n v arbitrary: r nn m e v' rule: readDigits.induct)
  case (1 dest n v)
  obtain c s e1 v1 where rr: "ReadRune v = ((c, s, e1), v1)"
    by (metis prod_cases3 surj_pair)
  show ?case
  proof (cases "e1 = None \<and> isDigit c")
    case False
    with "1.prems" rr ReadRune_error [of v c s _ v1] show ?thesis
      by (subst (asm) readDigits.simps) (auto split: option.splits if_splits)
  next
    case True
    with "1.prems" rr
    have "readDigits dest (n + s) (WriteRune dest c v1) = ((r, nn, m, Some e), v')"
      by (subst (asm) readDigits.simps) simp
    from "1.IH" [OF rr [symmetric] refl refl _ _ this] True show ?thesis by simp
  qed
qed

text \<open>
  A part of \<^verbatim>\<open>readNumber\<close> fails only right after a failed \<^verbatim>\<open>ReadRune\<close>, when there is
  nothing to unread.
\<close>

definition number_part :: "View \<Rightarrow> (nat \<times> error option) \<times> View \<Rightarrow> bool" where
  "number_part v r =
     (length (src (snd r)) \<le> length (src v) \<and> (snd (fst r) \<noteq> None \<longrightarrow> lastRune (snd r) = None))"

lemma number_part_ReadRune:
  "ReadRune v = ((c, s, Some e), v') \<Longrightarrow> length (src v) \<le> length (src w) \<Longrightarrow>
   number_part w ((n, Some e), v')"
  using ReadRune_error [of v c s e v'] ReadRune_not_longer [of v "(c, s, Some e)" v']
  by (simp add: number_part_def)

lemma number_part_readDigits:
  "readDigits dest n v = ((r, nn, m, e), v') \<Longrightarrow> length (src v) \<le> length (src w) \<Longrightarrow>
   number_part w ((m, e), v')"
  using readDigits_error [of dest n v r nn m _ v'] readDigits_not_longer [of dest n v _ v']
  by (cases e) (auto simp: number_part_def)

lemma number_part_mono:
  "number_part v r \<Longrightarrow> length (src v) \<le> length (src w) \<Longrightarrow> number_part w r"
  by (simp add: number_part_def)

lemma number_part_refl [simp]: "number_part v ((n, None), v)"
  by (simp add: number_part_def)

lemma readNumber_exp_part: "number_part v (readNumber_exp dest r nn n v)"
proof -
  obtain r1 nn1 e1 v1 where a: "ReadRune (WriteRune dest r v) = ((r1, nn1, e1), v1)"
    by (metis prod_cases3 surj_pair)
  obtain r2 nn2 e2 v2 where b: "ReadRune (WriteRune dest r1 v1) = ((r2, nn2, e2), v2)"
    by (metis prod_cases3 surj_pair)
  obtain r3 nn3 n3 e3 v3 where c: "readDigits dest (n + nn + nn1) v2 = ((r3, nn3, n3, e3), v3)"
    by (metis prod_cases4 surj_pair)
  obtain r4 nn4 n4 e4 v4 where d: "readDigits dest (n + nn) v1 = ((r4, nn4, n4, e4), v4)"
    by (metis prod_cases4 surj_pair)
  have le1: "length (src v1) \<le> length (src v)"
    using ReadRune_not_longer [OF a] by simp
  have le2: "length (src v2) \<le> length (src v)"
    using ReadRune_not_longer [OF b] le1 by simp
  show ?thesis
    using a b c d le1 le2
      number_part_ReadRune [of "WriteRune dest r v" r1 nn1 _ v1 v "n + nn"]
      number_part_ReadRune [of "WriteRune dest r1 v1" r2 nn2 _ v2 v "n + nn + nn1"]
      number_part_readDigits [OF c, of v] number_part_readDigits [OF d, of v]
    by (auto simp: readNumber_exp_def split: option.splits)
qed

lemma readNumber_frac_part: "number_part v (readNumber_frac dest r nn n v)"
proof -
  obtain r1 nn1 n1 e1 v1 where
    a: "readDigits dest (n + nn) (WriteRune dest r v) = ((r1, nn1, n1, e1), v1)"
    by (metis prod_cases4 surj_pair)
  have le1: "length (src v1) \<le> length (src v)"
    using readDigits_not_longer [OF a] by simp
  show ?thesis
    using a number_part_readDigits [OF a, of v]
      number_part_mono [OF readNumber_exp_part [of v1 dest r1 nn1 n1] le1]
      readNumber_exp_part [of v dest r nn n]
    by (auto simp: readNumber_frac_def split: option.splits)
qed

lemma readNumber_int_part: "number_part v (readNumber_int dest r nn n v)"
proof -
  obtain r1 nn1 e1 v1 where a: "ReadRune (WriteRune dest r v) = ((r1, nn1, e1), v1)"
    by (metis prod_cases3 surj_pair)
  obtain r2 nn2 n2 e2 v2 where
    b: "readDigits dest (n + nn) (WriteRune dest r v) = ((r2, nn2, n2, e2), v2)"
    by (metis prod_cases4 surj_pair)
  have le1: "length (src v1) \<le> length (src v)"
    using ReadRune_not_longer [OF a] by simp
  have le2: "length (src v2) \<le> length (src v)"
    using readDigits_not_longer [OF b] by simp
  show ?thesis
    using a b number_part_ReadRune [of "WriteRune dest r v" r1 nn1 _ v1 v "n + nn"]
      number_part_readDigits [OF b, of v]
      number_part_mono [OF readNumber_frac_part [of v1 dest r1 nn1 "n + nn"] le1]
      number_part_mono [OF readNumber_frac_part [of v2 dest r2 nn2 n2] le2]
      readNumber_frac_part [of v dest r nn n]
    by (auto simp: readNumber_int_def split: option.splits)
qed

lemma readNumber_not_longer:
  "readNumber dest v = (res, v') \<Longrightarrow> length (src v') \<le> length (src v)"
proof -
  assume a: "readNumber dest v = (res, v')"
  obtain r nn e v1 where nx: "next v = ((r, nn, e), v1)"
    by (metis prod_cases3 surj_pair)
  obtain r1 nn1 e1 v2 where rr: "ReadRune (WriteRune dest r v1) = ((r1, nn1, e1), v2)"
    by (metis prod_cases3 surj_pair)
  have le1: "length (src v1) \<le> length (src v)"
    using nx by (rule next_not_longer)
  have le2: "length (src v2) \<le> length (src v1)"
    using ReadRune_not_longer [OF rr] by simp
  define inner where "inner =
    (if r = CHR ''-'' then
       (case e1 of Some err \<Rightarrow> ((nn, Some err), v2)
        | None \<Rightarrow> readNumber_int dest r1 nn1 nn v2)
     else readNumber_int dest r nn 0 v1)"
  have part: "number_part v1 inner"
    using number_part_ReadRune [of "WriteRune dest r v1" r1 nn1 _ v2 v1 nn] rr
      number_part_mono [OF readNumber_int_part [of v2 dest r1 nn1 nn] le2]
      readNumber_int_part [of v1 dest r nn 0]
    by (auto simp: inner_def split: option.splits)
  obtain n3 e3 v3 where i: "inner = ((n3, e3), v3)"
    by (metis surj_pair)
  have "readNumber dest v =
          (case e of Some err \<Rightarrow> ((nn, Some err), v1)
           | None \<Rightarrow> (case e3 of None \<Rightarrow> ((n3, None), v3)
                       | Some err \<Rightarrow> (case UnreadRune v3 of (err', v4) \<Rightarrow> ((n3, err'), v4))))"
    using nx rr i by (auto simp: readNumber_def inner_def split: option.splits)
  with a part i le1 show ?thesis
    by (auto simp: number_part_def UnreadRune_def split: option.splits)
qed


text \<open>\<open>steady v r\<close>: the call returned, with a source no longer than that of \<open>v\<close>.\<close>

definition steady :: "View \<Rightarrow> result option \<Rightarrow> bool" where
  "steady v r = (\<exists>res v'. r = Some (res, v') \<and> length (src v') \<le> length (src v))"

lemma steadyI: "length (src v') \<le> length (src v) \<Longrightarrow> steady v (Some (res, v'))"
  by (simp add: steady_def)

lemma steady_mono: "steady w r \<Longrightarrow> length (src w) \<le> length (src v) \<Longrightarrow> steady v r"
  by (auto simp: steady_def)

lemma src_fold_WriteRune [simp]: "src (fold (WriteRune dest) rs v) = src v"
  by (induction rs arbitrary: v) simp_all

lemma readValue_body_steady:
  assumes ro: "\<And>d w. length (src w) \<le> length (src v) \<Longrightarrow> steady w (ro d w)"
    and ra: "\<And>d w. length (src w) \<le> length (src v) \<Longrightarrow> steady w (ra d w)"
  shows "steady v (readValue_body ro ra dest v)"
proof -
  obtain r n e v1 where pk: "peek v = ((r, n, e), v1)"
    by (metis prod_cases3 surj_pair)
  have le1: "length (src v1) \<le> length (src v)"
    using pk by (rule peek_not_longer)
  obtain n2 e2 v2 where rs: "readString dest v1 = ((n2, e2), v2)"
    by (metis surj_pair)
  obtain n3 e3 v3 where rn: "readNumber dest v1 = ((n3, e3), v3)"
    by (metis surj_pair)
  obtain n4 e4 v4 where rl: "readLiteral dest (nextSlice r) (nextSlice r) n v1 = ((n4, e4), v4)"
    by (metis surj_pair)
  note le = le1 readString_not_longer [OF rs] readNumber_not_longer [OF rn]
    readLiteral_not_longer [OF rl]
  show ?thesis
    using pk rs rn rl le ro [OF le1, of dest] ra [OF le1, of dest]
    by (auto simp: readValue_body_def steady_def split: option.splits)
qed

lemma readObject_body_steady:
  assumes lp: "\<And>d c num n w. length (src w) < length (src v) \<Longrightarrow> steady w (lp d c num n w)"
  shows "steady v (readObject_body lp dest v)"
proof -
  obtain r n e v1 where nx: "next v = ((r, n, e), v1)"
    by (metis prod_cases3 surj_pair)
  have le1: "length (src v1) \<le> length (src v)"
    using nx by (rule next_not_longer)
  show ?thesis
  proof (cases "e = None \<and> r = CHR ''{''")
    case False
    with nx le1 show ?thesis
      by (auto simp: readObject_body_def steady_def split: option.splits)
  next
    case True
    then have lt: "length (src (WriteRune dest r v1)) < length (src v)"
      using next_shorter [of v r n v1] nx by simp
    from lp [OF lt, of dest "curr v1" 0 n] True nx lt show ?thesis
      by (auto simp: readObject_body_def steady_def split: option.splits)
  qed
qed

lemma readArray_body_steady:
  assumes lp: "\<And>d n w. length (src w) < length (src v) \<Longrightarrow> steady w (lp d n w)"
  shows "steady v (readArray_body lp dest v)"
proof -
  obtain r n e v1 where nx: "next v = ((r, n, e), v1)"
    by (metis prod_cases3 surj_pair)
  have le1: "length (src v1) \<le> length (src v)"
    using nx by (rule next_not_longer)
  show ?thesis
  proof (cases "e = None \<and> r = CHR ''[''")
    case False
    with nx le1 show ?thesis
      by (auto simp: readArray_body_def steady_def split: option.splits)
  next
    case True
    then have lt: "length (src (WriteRune dest r v1)) < length (src v)"
      using next_shorter [of v r n v1] nx by simp
    from lp [OF lt, of dest n] True nx lt show ?thesis
      by (auto simp: readArray_body_def steady_def split: option.splits)
  qed
qed

lemma readArray_iter_steady:
  assumes rv: "\<And>d w. length (src w) \<le> length (src v) \<Longrightarrow> steady w (rv d w)"
    and lp: "\<And>d n w. length (src w) < length (src v) \<Longrightarrow> steady w (lp d n w)"
  shows "steady v (readArray_iter rv lp dest n v)"
proof -
  obtain nn e1 v1 where a: "rv dest v = Some ((nn, e1), v1)"
    and le1: "length (src v1) \<le> length (src v)"
    using rv [of v dest] by (auto simp: steady_def)
  obtain r nn2 e2 v2 where nx: "next v1 = ((r, nn2, e2), v2)"
    by (metis prod_cases3 surj_pair)
  have le2: "length (src v2) \<le> length (src v)"
    using next_not_longer [OF nx] le1 by simp
  show ?thesis
  proof (cases "e1 = None \<and> e2 = None \<and> r = CHR '',''")
    case False
    with a nx le1 le2 show ?thesis
      by (auto simp: readArray_iter_def steady_def split: option.splits)
  next
    case True
    then have lt: "length (src (WriteRune dest r v2)) < length (src v)"
      using next_shorter [of v1 r nn2 v2] nx le1 by simp
    from steady_mono [OF lp [OF lt, of dest "n + nn + nn2"]] True a nx lt show ?thesis
      by (simp add: readArray_iter_def)
  qed
qed

lemma src_readObject_key:
  "readObject_key dest num v1 = (dest', num', v4) \<Longrightarrow> src v4 = src v1"
  by (auto simp: readObject_key_def Let_def)

lemma readObject_iter_steady:
  assumes rv: "\<And>d w. length (src w) \<le> length (src v) \<Longrightarrow> steady w (rv d w)"
    and lp: "\<And>d c num n w. length (src w) < length (src v) \<Longrightarrow> steady w (lp d c num n w)"
  shows "steady v (readObject_iter rv lp dest c num n v)"
proof -
  obtain nn e1 v1 where rs: "readString KeyBuffer (v\<lparr>curr := c, keyBuf := []\<rparr>) = ((nn, e1), v1)"
    by (metis surj_pair)
  have le1: "length (src v1) \<le> length (src v)"
    using readString_not_longer [OF rs] by simp
  obtain dest' num' v4 where k: "readObject_key dest num v1 = (dest', num', v4)"
    by (metis prod_cases3)
  obtain r nn2 e2 v5 where nx: "next v4 = ((r, nn2, e2), v5)"
    by (metis prod_cases3 surj_pair)
  have le5: "length (src v5) \<le> length (src v)"
    using next_not_longer [OF nx] src_readObject_key [OF k] le1 by simp
  obtain nn3 e3 v6 where a: "rv dest' (WriteRune dest' r v5) = Some ((nn3, e3), v6)"
    and le6: "length (src v6) \<le> length (src v)"
    using rv [of "WriteRune dest' r v5" dest'] le5 by (auto simp: steady_def)
  obtain r' nn4 e4 v7 where nx2: "next v6 = ((r', nn4, e4), v7)"
    by (metis prod_cases3 surj_pair)
  have le7: "length (src v7) \<le> length (src v)"
    using next_not_longer [OF nx2] le6 by simp
  note eqs = rs k nx a nx2
  consider (key) "e1 \<noteq> None"
    | (colon) "e1 = None" "e2 \<noteq> None \<or> r \<noteq> CHR '':''"
    | (val) "e1 = None" "e2 = None" "r = CHR '':''" "e3 \<noteq> None"
    | (delim) "e1 = None" "e2 = None" "r = CHR '':''" "e3 = None" "e4 \<noteq> None \<or> r' \<noteq> CHR '',''"
    | (more) "e1 = None" "e2 = None" "r = CHR '':''" "e3 = None" "e4 = None" "r' = CHR '',''"
    by blast
  then show ?thesis
  proof cases
    case key
    with eqs le1 show ?thesis
      by (auto simp: readObject_iter_def steady_def)
  next
    case colon
    with eqs le5 show ?thesis
      by (auto simp: readObject_iter_def steady_def split: option.splits)
  next
    case val
    with eqs le6 show ?thesis
      by (auto simp: readObject_iter_def steady_def)
  next
    case delim
    with eqs le7 show ?thesis
      by (auto simp: readObject_iter_def steady_def split: option.splits)
  next
    case more
    then have lt: "length (src v7) < length (src v)"
      using next_shorter [of v6 r' nn4 v7] nx2 le6 by simp
    from steady_mono [OF lp [OF lt, of dest c num' "n + nn + nn2 + nn3 + nn4"]] more eqs lt
    show ?thesis
      by (simp add: readObject_iter_def)
  qed
qed


lemma fuel_enough:
  "(2 * length (src v) + 1 \<le> k \<longrightarrow> steady v (readValue k dest v))
   \<and> (2 * length (src v) + 2 \<le> k \<longrightarrow> steady v (readObject_loop k dest c num n v))
   \<and> (2 * length (src v) + 2 \<le> k \<longrightarrow> steady v (readArray_loop k dest n v))"
proof (induction k arbitrary: v dest c num n)
  case 0
  show ?case by simp
next
  case (Suc k)
  have val: "steady w (readValue k d w)" if "2 * length (src w) + 1 \<le> k" for d w
    using Suc.IH [of w d] that by blast
  have obj: "steady w (readObject_loop k d c' num' n' w)"
    if "2 * length (src w) + 2 \<le> k" for d c' num' n' w
    using Suc.IH [of w d c' num' n'] that by blast
  have arr: "steady w (readArray_loop k d n' w)" if "2 * length (src w) + 2 \<le> k" for d n' w
    using Suc.IH [of w d _ _ n'] that by blast
  have 1: "steady v (readValue (Suc k) dest v)" if b: "2 * length (src v) + 1 \<le> Suc k"
  proof -
    have "steady w (readObject_body (\<lambda>d c num n w. readObject_loop k d c num n w) d w)"
      if "length (src w) \<le> length (src v)" for d w
      using that b by (intro readObject_body_steady obj) simp
    moreover have "steady w (readArray_body (\<lambda>d n w. readArray_loop k d n w) d w)"
      if "length (src w) \<le> length (src v)" for d w
      using that b by (intro readArray_body_steady arr) simp
    ultimately show ?thesis
      by (simp add: readValue_body_steady)
  qed
  have 2: "steady v (readObject_loop (Suc k) dest c num n v)"
    if b: "2 * length (src v) + 2 \<le> Suc k"
  proof -
    have "steady w (readValue k d w)" if "length (src w) \<le> length (src v)" for d w
      using that b by (intro val) simp
    moreover have "steady w (readObject_loop k d c' num' n' w)"
      if "length (src w) < length (src v)" for d c' num' n' w
      using that b by (intro obj) simp
    ultimately show ?thesis
      by (simp add: readObject_iter_steady)
  qed
  have 3: "steady v (readArray_loop (Suc k) dest n v)"
    if b: "2 * length (src v) + 2 \<le> Suc k"
  proof -
    have "steady w (readValue k d w)" if "length (src w) \<le> length (src v)" for d w
      using that b by (intro val) simp
    moreover have "steady w (readArray_loop k d n' w)"
      if "length (src w) < length (src v)" for d n' w
      using that b by (intro arr) simp
    ultimately show ?thesis
      by (simp add: readArray_iter_steady)
  qed
  from 1 2 3 show ?case by blast
qed

lemma readObject_fuel: "length (src w) \<le> length (src v) \<Longrightarrow> steady w (readObject (fuel v) dest w)"
  unfolding readObject_def
proof (rule readObject_body_steady)
  fix d c num n and w' :: View
  assume "length (src w) \<le> length (src v)" "length (src w') < length (src w)"
  then have "2 * length (src w') + 2 \<le> fuel v" by (simp add: fuel_def)
  then show "steady w' (readObject_loop (fuel v) d c num n w')"
    using fuel_enough [of w' "fuel v" d c num n] by blast
qed

lemma readArray_fuel: "length (src w) \<le> length (src v) \<Longrightarrow> steady w (readArray (fuel v) dest w)"
  unfolding readArray_def
proof (rule readArray_body_steady)
  fix d n and w' :: View
  assume "length (src w) \<le> length (src v)" "length (src w') < length (src w)"
  then have "2 * length (src w') + 2 \<le> fuel v" by (simp add: fuel_def)
  then show "steady w' (readArray_loop (fuel v) d n w')"
    using fuel_enough [of w' "fuel v" d _ _ n] by blast
qed

lemma readEOF_error: "\<exists>n' e v'. readEOF n v = ((n', Some e), v')"
  by (auto simp: readEOF_def split: prod.splits option.splits)

lemma wrapError_kinds:
  "wrapError n (Some e) = Some EOF \<and> e = EOF
   \<or> wrapError n (Some e) = Some (SyntaxError n e) \<and> e \<noteq> EOF"
  by (simp add: wrapError_def)

text \<open>
  \<^verbatim>\<open>readJSON\<close> started with \<open>fuel\<close> always returns, and what it returns is never a nil
  error: it is \<^verbatim>\<open>io.EOF\<close> or a \<^verbatim>\<open>SyntaxError\<close> with the returned count as offset.
\<close>

lemma readJSON_total:
  "\<exists>n e v'. readJSON (fuel v) dest v = Some ((n, Some e), v')
     \<and> (e = EOF \<or> (\<exists>e'. e = SyntaxError n e' \<and> e' \<noteq> EOF))"
proof -
  obtain r n e v1 where pk: "peek v = ((r, n, e), v1)"
    by (metis prod_cases3 surj_pair)
  have le1: "length (src v1) \<le> length (src v)"
    using pk by (rule peek_not_longer)
  obtain n2 e2 v2 where ro: "readObject (fuel v) dest v1 = Some ((n2, e2), v2)"
    using readObject_fuel [OF le1, of dest] by (auto simp: steady_def)
  obtain n3 e3 v3 where ra: "readArray (fuel v) dest v1 = Some ((n3, e3), v3)"
    using readArray_fuel [OF le1, of dest] by (auto simp: steady_def)
  obtain n4 e4 v4 where q2: "readEOF (n + n2) v2 = ((n4, Some e4), v4)"
    using readEOF_error by blast
  obtain n5 e5 v5 where q3: "readEOF (n + n3) v3 = ((n5, Some e5), v5)"
    using readEOF_error by blast
  show ?thesis
    using pk ro ra q2 q3 wrapError_kinds
    by (auto simp: readJSON_def split: option.splits) metis+
qed

end
